theory Spec2Isabelle
  imports Main
begin

section \<open>The stroke counter plugin: data model\<close>

text \<open>
  The program is \<^verbatim>\<open>src/plover_stroke_counter/plugin.py\<close>: a class
  \<^verbatim>\<open>StrokeCounterGUI\<close> (a thread that owns a wx window, a counter and a queue of
  increments) and a class \<^verbatim>\<open>StrokeCounterPlugin\<close> (the adapter the host engine calls).

  The wx toolkit and the host engine are not part of the repository. What the code asks of
  them is kept as data:
  \<^item> \<^verbatim>\<open>wx.CallAfter(f, ...)\<close> appends an event to the FIFO of calls that the main loop
    will make (\<open>call_after\<close>);
  \<^item> \<^verbatim>\<open>wx.CallLater(100, self.process_strokes)\<close> arms one more one-shot timer
    (\<open>call_later\<close> counts the armed ones);
  \<^item> \<^verbatim>\<open>engine.hook_connect\<close> and \<^verbatim>\<open>engine.hook_disconnect\<close> are recorded in
    the order in which the plugin makes them.
  When the main loop handles an event and when a timer fires is the toolkit's choice; it is
  a schedule, a list of actions, over which the theorems quantify.
\<close>

datatype error = AttributeError

text \<open>The calls that the code hands to \<^verbatim>\<open>wx.CallAfter\<close>:
  \<^verbatim>\<open>self._update_count\<close> with its argument, \<^verbatim>\<open>self._reset_count\<close>,
  \<^verbatim>\<open>self.frame.Layout\<close> and \<^verbatim>\<open>self.frame.Close\<close>.\<close>

datatype wx_event = UpdateCount int | ResetCount | FrameLayout | FrameClose

datatype frame_state = Shown | Closed

text \<open>The attributes of a \<^verbatim>\<open>StrokeCounterGUI\<close> object. \<open>frame\<close> and \<open>text_label\<close>
  (the label of \<^verbatim>\<open>self.text\<close>) do not exist before \<^verbatim>\<open>run\<close> has created them.\<close>

record gui =
  stroke_count :: int
  wx_ready :: bool
  stroke_queue :: "int list"
  frame :: "frame_state option"
  text_label :: "string option"
  call_after :: "wx_event list"
  call_later :: nat

section \<open>Formatting the count\<close>

text \<open>The f-string \<^verbatim>\<open>f"Total Strokes: {self.stroke_count}"\<close> prints a Python integer in
  decimal, with a minus sign when it is negative.\<close>

definition digit_char :: "nat \<Rightarrow> char" where
  "digit_char d = ''0123456789'' ! d"

fun str_nat :: "nat \<Rightarrow> string" where
  "str_nat n = (if n < 10 then [digit_char n] else str_nat (n div 10) @ [digit_char (n mod 10)])"

declare str_nat.simps [simp del]

definition str_int :: "int \<Rightarrow> string" where
  "str_int i = (if i < 0 then CHR ''-'' # str_nat (nat (- i)) else str_nat (nat i))"

definition total_strokes :: "int \<Rightarrow> string" where
  "total_strokes c = ''Total Strokes: '' @ str_int c"

section \<open>The GUI object\<close>

text \<open>\<^verbatim>\<open>StrokeCounterGUI.__init__\<close>: the count is 0, the readiness event is clear, the
  queue is empty. The thread it starts executes \<open>run\<close> later.\<close>

definition StrokeCounterGUI_init :: gui where
  "StrokeCounterGUI_init =
     \<lparr>stroke_count = 0, wx_ready = False, stroke_queue = [], frame = None,
      text_label = None, call_after = [], call_later = 0\<rparr>"

text \<open>\<^verbatim>\<open>run\<close> up to the point where it enters the main loop: it builds the frame and the
  label \<^verbatim>\<open>"Total Strokes: 0"\<close>, shows the frame, sets \<^verbatim>\<open>wx_ready\<close>, arms the first
  poll timer and posts \<^verbatim>\<open>self.frame.Layout\<close>. The \<^verbatim>\<open>wx.App\<close> that it creates when
  there is none, the panel, the sizer and the button are toolkit objects with no field here;
  a click on the button is the action \<open>Reset\<close> below.\<close>

definition run :: "gui \<Rightarrow> gui" where
  "run g = g\<lparr>frame := Some Shown,
            text_label := Some ''Total Strokes: 0'',
            wx_ready := True,
            call_later := call_later g + 1,
            call_after := call_after g @ [FrameLayout]\<rparr>"

text \<open>The loop of \<^verbatim>\<open>process_strokes\<close>: while the queue is not empty, take its head and
  post \<^verbatim>\<open>_update_count\<close> with it.\<close>

fun drain_loop :: "int list \<Rightarrow> wx_event list \<Rightarrow> int list \<times> wx_event list" where
  "drain_loop [] evs = ([], evs)"
| "drain_loop (strokes # q) evs = drain_loop q (evs @ [UpdateCount strokes])"

definition process_strokes :: "gui \<Rightarrow> gui" where
  "process_strokes g =
     (case drain_loop (stroke_queue g) (call_after g) of
        (q, evs) \<Rightarrow> g\<lparr>stroke_queue := q, call_after := evs, call_later := call_later g + 1\<rparr>)"

definition update_count :: "gui \<Rightarrow> gui" where
  "update_count g = g\<lparr>stroke_queue := stroke_queue g @ [1]\<rparr>"

text \<open>\<^verbatim>\<open>_update_count\<close> and \<^verbatim>\<open>_reset_count\<close>. Both use \<^verbatim>\<open>self.text\<close>, which
  is an AttributeError on an object whose \<^verbatim>\<open>run\<close> has not built the label.
  \<^verbatim>\<open>self.frame.Layout()\<close> changes nothing that is modelled.\<close>

definition do_update_count :: "gui \<Rightarrow> int \<Rightarrow> error + gui" where
  "do_update_count g strokes =
     (case text_label g of
        None \<Rightarrow> Inl AttributeError
      | Some _ \<Rightarrow>
          Inr (g\<lparr>stroke_count := stroke_count g + strokes,
                 text_label := Some (total_strokes (stroke_count g + strokes))\<rparr>))"

definition reset_count :: "gui \<Rightarrow> gui" where
  "reset_count g = g\<lparr>call_after := call_after g @ [ResetCount]\<rparr>"

definition do_reset_count :: "gui \<Rightarrow> error + gui" where
  "do_reset_count g =
     (case text_label g of
        None \<Rightarrow> Inl AttributeError
      | Some _ \<Rightarrow> Inr (g\<lparr>stroke_count := 0, text_label := Some ''Total Strokes: 0''\<rparr>))"

definition close :: "gui \<Rightarrow> gui" where
  "close g = (if wx_ready g then g\<lparr>call_after := call_after g @ [FrameClose]\<rparr> else g)"

section \<open>The main loop as a schedule\<close>

text \<open>The main loop makes a posted call: \<open>handle\<close>. \<^verbatim>\<open>frame.Close\<close> closes the frame.
  What the toolkit does afterwards (destroying the widgets, ending its main loop when no
  window is left) is its own business and has no counterpart here: a schedule may go on
  after the frame is closed, and the theorems about counts are about schedules without
  \<open>Close\<close>, or hold whatever the frame's state is.\<close>

fun handle :: "wx_event \<Rightarrow> gui \<Rightarrow> error + gui" where
  "handle (UpdateCount strokes) g = do_update_count g strokes"
| "handle ResetCount g = do_reset_count g"
| "handle FrameLayout g = Inr g"
| "handle FrameClose g = Inr (g\<lparr>frame := Some Closed\<rparr>)"

definition dispatch :: "gui \<Rightarrow> error + gui" where
  "dispatch g = (case call_after g of [] \<Rightarrow> Inr g | e # es \<Rightarrow> handle e (g\<lparr>call_after := es\<rparr>))"

text \<open>An armed poll timer fires: it is used up and \<open>process_strokes\<close> runs.\<close>

definition tick :: "gui \<Rightarrow> gui" where
  "tick g = (if call_later g = 0 then g else process_strokes (g\<lparr>call_later := call_later g - 1\<rparr>))"

text \<open>What can happen to a GUI object: its thread executes \<^verbatim>\<open>run\<close>, a caller's
  \<^verbatim>\<open>update_count()\<close>, a poll timer firing, the main loop making the next posted call,
  a click on the reset button (\<^verbatim>\<open>reset_count\<close>), and the plugin's \<^verbatim>\<open>close()\<close>.\<close>

datatype action = Run | Notify | Tick | Dispatch | Reset | Close

fun step :: "action \<Rightarrow> gui \<Rightarrow> error + gui" where
  "step Run g = Inr (run g)"
| "step Notify g = Inr (update_count g)"
| "step Tick g = Inr (tick g)"
| "step Dispatch g = dispatch g"
| "step Reset g = Inr (reset_count g)"
| "step Close g = Inr (close g)"

fun exec :: "action list \<Rightarrow> gui \<Rightarrow> error + gui" where
  "exec [] g = Inr g"
| "exec (a # as) g = (case step a g of Inl e \<Rightarrow> Inl e | Inr g' \<Rightarrow> exec as g')"

text \<open>Fully drained: no increment is left in the queue and no posted call is left.\<close>

definition drained :: "gui \<Rightarrow> bool" where
  "drained g = (stroke_queue g = [] \<and> call_after g = [])"

section \<open>The plugin object\<close>

text \<open>The calls the plugin makes on the host engine, with the hook name; the callback is
  always \<^verbatim>\<open>self.on_stroke\<close>.\<close>

datatype host_call = HookConnect string | HookDisconnect string

text \<open>The attributes of a \<^verbatim>\<open>StrokeCounterPlugin\<close>. \<open>engine\<close> holds the calls made on
  the host so far. \<^verbatim>\<open>self.gui\<close> is a reference: \<open>heap\<close> holds every GUI object
  created so far, and \<open>gui\<close> is \<open>None\<close> or the index of one of them, so that an object
  the plugin has dropped is still there for its own thread. \<open>start_timer\<close> counts the armed
  \<^verbatim>\<open>threading.Timer(5, self.start)\<close>.\<close>

record plugin =
  engine :: "host_call list"
  gui :: "nat option"
  heap :: "gui list"
  start_timer :: nat

definition StrokeCounterPlugin_init :: "host_call list \<Rightarrow> plugin" where
  "StrokeCounterPlugin_init eng =
     \<lparr>engine = eng @ [HookConnect ''stroked''], gui = None, heap = [], start_timer = 1\<rparr>"

definition plugin_init :: "host_call list \<Rightarrow> plugin" where
  "plugin_init eng = StrokeCounterPlugin_init eng"

definition start :: "plugin \<Rightarrow> plugin" where
  "start p =
     (case gui p of
        None \<Rightarrow> p\<lparr>heap := heap p @ [StrokeCounterGUI_init], gui := Some (length (heap p))\<rparr>
      | Some r \<Rightarrow> p)"


definition stop :: "plugin \<Rightarrow> plugin" where
  "stop p =
     (let p' = (case gui p of
                  None \<Rightarrow> p
                | Some r \<Rightarrow> p\<lparr>heap := (heap p)[r := close (heap p ! r)], gui := None\<rparr>)
      in p'\<lparr>engine := engine p' @ [HookDisconnect ''stroked'']\<rparr>)"



section \<open>Auxiliary notions for the proofs\<close>

text \<open>The count that results from making a list of posted calls, in order, on a count.\<close>

fun apply_event :: "wx_event \<Rightarrow> int \<Rightarrow> int" where
  "apply_event (UpdateCount n) c = c + n"
| "apply_event ResetCount c = 0"
| "apply_event FrameLayout c = c"
| "apply_event FrameClose c = c"

fun settle :: "wx_event list \<Rightarrow> int \<Rightarrow> int" where
  "settle [] c = c"
| "settle (e # es) c = settle es (apply_event e c)"

text \<open>The count a state is heading for: the posted calls applied to the count, then the
  queued increments added.\<close>

definition heading :: "gui \<Rightarrow> int" where
  "heading g = settle (call_after g) (stroke_count g) + sum_list (stroke_queue g)"

text \<open>The label shows the count.\<close>

definition label_ok :: "gui \<Rightarrow> bool" where
  "label_ok g = (text_label g = Some (total_strokes (stroke_count g)))"

text \<open>The label has been built (\<^verbatim>\<open>run\<close> has been executed).\<close>

definition built :: "gui \<Rightarrow> bool" where
  "built g = (text_label g \<noteq> None)"

text \<open>The increments among a list of posted calls, in order; and the increments that a
  state still has to apply: the posted ones, then the queued ones.\<close>

fun updates :: "wx_event list \<Rightarrow> int list" where
  "updates [] = []"
| "updates (UpdateCount n # es) = n # updates es"
| "updates (e # es) = updates es"

definition outstanding :: "gui \<Rightarrow> int list" where
  "outstanding g = updates (call_after g) @ stroke_queue g"

text \<open>Invariants of the running GUI used below: the count and every increment on its way
  are not negative; the frame is shown and no \<^verbatim>\<open>frame.Close\<close> is posted.\<close>

definition nonneg_inv :: "gui \<Rightarrow> bool" where
  "nonneg_inv g = (label_ok g \<and> 0 \<le> stroke_count g \<and> list_all (\<lambda>n. 0 \<le> n) (outstanding g))"

definition shown_inv :: "gui \<Rightarrow> bool" where
  "shown_inv g = (built g \<and> frame g = Some Shown \<and> wx_ready g \<and> FrameClose \<notin> set (call_after g))"

text \<open>A GUI object whose thread has not executed \<^verbatim>\<open>run\<close> yet, with \<open>k\<close> increments
  queued.\<close>

definition waiting :: "nat \<Rightarrow> gui" where
  "waiting k = StrokeCounterGUI_init\<lparr>stroke_queue := replicate k 1\<rparr>"

section \<open>Basic facts\<close>

lemma str_int_0: "str_int 0 = ''0''"
  by (simp add: str_int_def str_nat.simps digit_char_def)

lemma total_strokes_0: "total_strokes 0 = ''Total Strokes: 0''"
  by (simp add: total_strokes_def str_int_0)

lemma total_strokes_3: "total_strokes 3 = ''Total Strokes: 3''"
  by (simp add: total_strokes_def str_int_def str_nat.simps digit_char_def)

lemma drain_loop_eq: "drain_loop q evs = ([], evs @ map UpdateCount q)"
  by (induction q arbitrary: evs) simp_all

lemma process_strokes_eq:
  "process_strokes g =
     g\<lparr>stroke_queue := [], call_after := call_after g @ map UpdateCount (stroke_queue g),
       call_later := call_later g + 1\<rparr>"
  by (simp add: process_strokes_def drain_loop_eq)

lemma settle_append: "settle (es @ fs) c = settle fs (settle es c)"
  by (induction es arbitrary: c) simp_all

lemma settle_updates: "settle (map UpdateCount q) c = c + sum_list q"
  by (induction q arbitrary: c) simp_all

lemma updates_append: "updates (es @ fs) = updates es @ updates fs"
  by (induction es rule: updates.induct) simp_all

lemma updates_map: "updates (map UpdateCount q) = q"
  by (induction q) simp_all

lemma label_ok_built: "label_ok g \<Longrightarrow> built g"
  by (simp add: label_ok_def built_def)

lemma exec_append:
  "exec (as @ bs) g = (case exec as g of Inl e \<Rightarrow> Inl e | Inr g' \<Rightarrow> exec bs g')"
  by (induction as arbitrary: g) (simp_all split: sum.splits)

lemma exec_notifies:
  "exec (replicate n Notify) g = Inr (g\<lparr>stroke_queue := stroke_queue g @ replicate n 1\<rparr>)"
proof (induction n arbitrary: g)
  case 0
  then show ?case by simp
next
  case (Suc n)
  show ?case by (simp add: Suc.IH update_count_def replicate_app_Cons_same)
qed

section \<open>Polling preserves what a state is heading for\<close>

lemma heading_drained: "drained g \<Longrightarrow> heading g = stroke_count g"
  by (simp add: heading_def drained_def)

lemma tick_poll: "label_ok g \<Longrightarrow> label_ok (tick g) \<and> heading (tick g) = heading g"
  by (simp add: tick_def process_strokes_eq label_ok_def heading_def settle_append settle_updates)

lemma handle_poll:
  assumes "label_ok g"
  shows "\<exists>g'. handle e (g\<lparr>call_after := es\<rparr>) = Inr g' \<and> label_ok g' \<and>
           call_after g' = es \<and> stroke_queue g' = stroke_queue g \<and>
           stroke_count g' = apply_event e (stroke_count g)"
  using assms
  by (cases e) (simp_all add: label_ok_def do_update_count_def do_reset_count_def total_strokes_0)

lemma dispatch_poll:
  assumes "label_ok g"
  shows "\<exists>g'. dispatch g = Inr g' \<and> label_ok g' \<and> heading g' = heading g"
proof (cases "call_after g")
  case Nil
  with assms show ?thesis by (simp add: dispatch_def)
next
  case (Cons e es)
  from handle_poll [OF assms, of e es] obtain g' where
    h: "handle e (g\<lparr>call_after := es\<rparr>) = Inr g'" "label_ok g'" "call_after g' = es"
       "stroke_queue g' = stroke_queue g" "stroke_count g' = apply_event e (stroke_count g)"
    by blast
  with Cons show ?thesis by (simp add: dispatch_def heading_def)
qed

lemma step_poll:
  assumes "label_ok g" and "a = Tick \<or> a = Dispatch"
  shows "\<exists>g'. step a g = Inr g' \<and> label_ok g' \<and> heading g' = heading g"
  using assms tick_poll [of g] dispatch_poll [of g] by auto

lemma exec_poll:
  assumes "label_ok g" and "set sched \<subseteq> {Tick, Dispatch}"
  shows "\<exists>g'. exec sched g = Inr g' \<and> label_ok g' \<and> heading g' = heading g"
  using assms
proof (induction sched arbitrary: g)
  case Nil
  then show ?case by simp
next
  case (Cons a sched)
  from Cons.prems have "a = Tick \<or> a = Dispatch" by auto
  from step_poll [OF Cons.prems(1) this] obtain g1 where
    s: "step a g = Inr g1" "label_ok g1" "heading g1 = heading g" by blast
  from Cons.prems have "set sched \<subseteq> {Tick, Dispatch}" by auto
  from Cons.IH [OF s(2) this] s show ?case by simp
qed

lemma dispatch_all:
  assumes "label_ok g" and "n = length (call_after g)"
  shows "\<exists>g'. exec (replicate n Dispatch) g = Inr g' \<and> call_after g' = [] \<and>
           stroke_queue g' = stroke_queue g"
  using assms
proof (induction n arbitrary: g)
  case 0
  then show ?case by simp
next
  case (Suc n)
  then obtain e es where c: "call_after g = e # es" by (cases "call_after g") auto
  from handle_poll [OF Suc.prems(1), of e es] obtain g1 where
    h: "handle e (g\<lparr>call_after := es\<rparr>) = Inr g1" "label_ok g1" "call_after g1 = es"
       "stroke_queue g1 = stroke_queue g"
    by blast
  from Suc.prems c h have "n = length (call_after g1)" by simp
  from Suc.IH [OF h(2) this] c h show ?case by (simp add: dispatch_def)
qed

lemma heading_reset: "heading (reset_count g) = sum_list (stroke_queue g)"
  by (simp add: heading_def reset_count_def settle_append)

lemma label_ok_reset: "label_ok g \<Longrightarrow> label_ok (reset_count g)"
  by (simp add: label_ok_def reset_count_def)

section \<open>Increments leave in the order in which they came\<close>

lemma outstanding_update_count: "outstanding (update_count g) = outstanding g @ [1]"
  by (simp add: outstanding_def update_count_def)

lemma outstanding_tick: "outstanding (tick g) = outstanding g"
  by (simp add: outstanding_def tick_def process_strokes_eq updates_append updates_map)

lemma no_reset_tick:
  "ResetCount \<notin> set (call_after g) \<Longrightarrow> ResetCount \<notin> set (call_after (tick g))"
  by (auto simp: tick_def process_strokes_eq)

lemma dispatch_once:
  assumes "built g" and "ResetCount \<notin> set (call_after g)"
  shows "\<exists>g' j. dispatch g = Inr g' \<and> built g' \<and> ResetCount \<notin> set (call_after g')
            \<and> j \<le> 1 \<and> j \<le> length (outstanding g)
            \<and> stroke_count g' = stroke_count g + sum_list (take j (outstanding g))
            \<and> outstanding g' = drop j (outstanding g)"
proof (cases "call_after g")
  case Nil
  with assms have "dispatch g = Inr g \<and> built g \<and> ResetCount \<notin> set (call_after g)
      \<and> (0::nat) \<le> 1 \<and> 0 \<le> length (outstanding g)
      \<and> stroke_count g = stroke_count g + sum_list (take 0 (outstanding g))
      \<and> outstanding g = drop 0 (outstanding g)"
    by (simp add: dispatch_def)
  then show ?thesis by blast
next
  case (Cons e es)
  show ?thesis
  proof (cases e)
    case (UpdateCount n)
    define g' where "g' = g\<lparr>call_after := es, stroke_count := stroke_count g + n,
                 text_label := Some (total_strokes (stroke_count g + n))\<rparr>"
    from assms Cons UpdateCount have "dispatch g = Inr g' \<and> built g' \<and> ResetCount \<notin> set (call_after g')
      \<and> (1::nat) \<le> 1 \<and> 1 \<le> length (outstanding g)
      \<and> stroke_count g' = stroke_count g + sum_list (take 1 (outstanding g))
      \<and> outstanding g' = drop 1 (outstanding g)"
      by (auto simp: dispatch_def do_update_count_def built_def outstanding_def g'_def)
    then show ?thesis by blast
  next
    case ResetCount
    with assms Cons show ?thesis by simp
  next
    case FrameLayout
    with assms Cons have "dispatch g = Inr (g\<lparr>call_after := es\<rparr>) \<and> built (g\<lparr>call_after := es\<rparr>)
      \<and> ResetCount \<notin> set (call_after (g\<lparr>call_after := es\<rparr>))
      \<and> (0::nat) \<le> 1 \<and> 0 \<le> length (outstanding g)
      \<and> stroke_count (g\<lparr>call_after := es\<rparr>) = stroke_count g + sum_list (take 0 (outstanding g))
      \<and> outstanding (g\<lparr>call_after := es\<rparr>) = drop 0 (outstanding g)"
      by (simp add: dispatch_def built_def outstanding_def)
    then show ?thesis by blast
  next
    case FrameClose
    with assms Cons have "dispatch g = Inr (g\<lparr>call_after := es, frame := Some Closed\<rparr>)
      \<and> built (g\<lparr>call_after := es, frame := Some Closed\<rparr>)
      \<and> ResetCount \<notin> set (call_after (g\<lparr>call_after := es, frame := Some Closed\<rparr>))
      \<and> (0::nat) \<le> 1 \<and> 0 \<le> length (outstanding g)
      \<and> stroke_count (g\<lparr>call_after := es, frame := Some Closed\<rparr>) = stroke_count g + sum_list (take 0 (outstanding g))
      \<and> outstanding (g\<lparr>call_after := es, frame := Some Closed\<rparr>) = drop 0 (outstanding g)"
      by (simp add: dispatch_def built_def outstanding_def)
    then show ?thesis by blast
  qed
qed

section \<open>Invariants of the running GUI\<close>

lemma dispatch_nonneg:
  assumes "nonneg_inv g"
  shows "\<exists>g'. dispatch g = Inr g' \<and> nonneg_inv g'"
proof (cases "call_after g")
  case Nil
  with assms show ?thesis by (simp add: dispatch_def)
next
  case (Cons e es)
  with assms show ?thesis
    by (cases e)
      (simp_all add: dispatch_def nonneg_inv_def label_ok_def outstanding_def
        do_update_count_def do_reset_count_def total_strokes_0)
qed

lemma step_nonneg:
  assumes "nonneg_inv g" and "a \<noteq> Run"
  shows "\<exists>g'. step a g = Inr g' \<and> nonneg_inv g'"
proof (cases a)
  case Run
  with assms show ?thesis by simp
next
  case Notify
  with assms show ?thesis
    by (simp add: nonneg_inv_def label_ok_def outstanding_def update_count_def)
next
  case Tick
  with assms show ?thesis
    by (simp add: nonneg_inv_def label_ok_def outstanding_def tick_def process_strokes_eq
        updates_append updates_map)
next
  case Dispatch
  with dispatch_nonneg [OF assms(1)] show ?thesis by simp
next
  case Reset
  with assms show ?thesis
    by (simp add: nonneg_inv_def label_ok_def outstanding_def reset_count_def updates_append)
next
  case Close
  with assms show ?thesis
    by (simp add: nonneg_inv_def label_ok_def outstanding_def close_def updates_append)
qed

lemma exec_nonneg:
  assumes "nonneg_inv g" and "Run \<notin> set sched"
  shows "\<exists>g'. exec sched g = Inr g' \<and> nonneg_inv g'"
  using assms
proof (induction sched arbitrary: g)
  case Nil
  then show ?case by simp
next
  case (Cons a sched)
  from Cons.prems have "a \<noteq> Run" by auto
  from step_nonneg [OF Cons.prems(1) this] obtain g1 where
    s: "step a g = Inr g1" "nonneg_inv g1" by blast
  from Cons.prems have "Run \<notin> set sched" by auto
  from Cons.IH [OF s(2) this] s(1) show ?case by simp
qed

lemma step_waiting:
  assumes "a = Notify \<or> a = Tick \<or> a = Dispatch \<or> a = Close"
  shows "\<exists>k'. step a (waiting k) = Inr (waiting k')"
proof -
  have "step Notify (waiting k) = Inr (waiting (Suc k))"
    by (simp add: waiting_def update_count_def StrokeCounterGUI_init_def replicate_append_same)
  moreover have "step Tick (waiting k) = Inr (waiting k)"
    by (simp add: waiting_def tick_def StrokeCounterGUI_init_def)
  moreover have "step Dispatch (waiting k) = Inr (waiting k)"
    by (simp add: waiting_def dispatch_def StrokeCounterGUI_init_def)
  moreover have "step Close (waiting k) = Inr (waiting k)"
    by (simp add: waiting_def close_def StrokeCounterGUI_init_def)
  ultimately show ?thesis using assms by blast
qed

lemma exec_waiting:
  assumes "set pre \<subseteq> {Notify, Tick, Dispatch, Close}"
  shows "\<exists>k'. exec pre (waiting k) = Inr (waiting k')"
  using assms
proof (induction pre arbitrary: k)
  case Nil
  have "exec [] (waiting k) = Inr (waiting k)" by simp
  then show ?case by blast
next
  case (Cons a pre)
  from Cons.prems have "a = Notify \<or> a = Tick \<or> a = Dispatch \<or> a = Close" by auto
  from step_waiting [OF this] obtain k1 where s: "step a (waiting k) = Inr (waiting k1)" by blast
  from Cons.prems have "set pre \<subseteq> {Notify, Tick, Dispatch, Close}" by auto
  from Cons.IH [OF this, of k1] s show ?case by simp
qed

lemma nonneg_run_waiting: "nonneg_inv (run (waiting k))"
  by (simp add: nonneg_inv_def label_ok_def outstanding_def run_def waiting_def
      StrokeCounterGUI_init_def total_strokes_0 updates_append list_all_iff)


lemma step_call_later:
  assumes "built g" and "a \<noteq> Run"
  shows "\<exists>g'. step a g = Inr g' \<and> built g' \<and> call_later g' = call_later g"
proof (cases a)
  case Dispatch
  show ?thesis
  proof (cases "call_after g")
    case Nil
    with assms Dispatch show ?thesis by (simp add: dispatch_def)
  next
    case (Cons e es)
    with assms Dispatch show ?thesis
      by (cases e) (auto simp: dispatch_def built_def do_update_count_def do_reset_count_def)
  qed
qed (use assms in \<open>simp_all add: built_def update_count_def tick_def process_strokes_eq
       reset_count_def close_def\<close>)

lemma step_shown:
  assumes "shown_inv g" and "a = Notify \<or> a = Tick \<or> a = Dispatch \<or> a = Reset"
  shows "\<exists>g'. step a g = Inr g' \<and> shown_inv g'"
proof (cases a)
  case Dispatch
  show ?thesis
  proof (cases "call_after g")
    case Nil
    with assms Dispatch show ?thesis by (simp add: dispatch_def)
  next
    case (Cons e es)
    with assms Dispatch show ?thesis
      by (cases e) (auto simp: dispatch_def shown_inv_def built_def do_update_count_def do_reset_count_def)
  qed
qed (use assms in \<open>auto simp: shown_inv_def built_def update_count_def tick_def process_strokes_eq
       reset_count_def\<close>)

lemma exec_shown:
  assumes "shown_inv g" and "set sched \<subseteq> {Notify, Tick, Dispatch, Reset}"
  shows "\<exists>g'. exec sched g = Inr g' \<and> shown_inv g'"
  using assms
proof (induction sched arbitrary: g)
  case Nil
  then show ?case by simp
next
  case (Cons a sched)
  from Cons.prems have "a = Notify \<or> a = Tick \<or> a = Dispatch \<or> a = Reset" by auto
  from step_shown [OF Cons.prems(1) this] obtain g1 where
    s: "step a g = Inr g1" "shown_inv g1" by blast
  from Cons.prems have "set sched \<subseteq> {Notify, Tick, Dispatch, Reset}" by auto
  from Cons.IH [OF s(2) this] s(1) show ?case by simp
qed

section \<open>Facts about the plugin object\<close>

lemma gui_stop: "gui (stop p) = None"
  by (simp add: stop_def Let_def split: option.splits)



lemma start_start: "start (start p) = start p"
  by (simp add: start_def split: option.splits)



section \<open>Counting notifications\<close>

text \<open>
  Claim C1. Start from a GUI that has just been built, with count 0. After \<open>N\<close> calls of
  \<^verbatim>\<open>update_count()\<close>, one poll followed by \<open>N + 1\<close> calls made by the main loop (the
  posted \<^verbatim>\<open>frame.Layout\<close> and the \<open>N\<close> increments) ends with nothing queued and nothing
  posted, with the count \<open>N\<close> and the label showing it. Moreover every order in which polls
  fire and the main loop makes posted calls that ends with nothing queued and nothing posted
  gives the count \<open>N\<close> and the label showing it.
\<close>

theorem counted_after_drain:
  "(\<exists>g. exec (replicate N Notify @ Tick # replicate (Suc N) Dispatch) (run StrokeCounterGUI_init) = Inr g
        \<and> drained g \<and> stroke_count g = int N \<and> text_label g = Some (total_strokes (int N)))
   \<and> (\<forall>sched g. set sched \<subseteq> {Tick, Dispatch}
         \<and> exec (replicate N Notify @ sched) (run StrokeCounterGUI_init) = Inr g \<and> drained g
        \<longrightarrow> stroke_count g = int N \<and> text_label g = Some (total_strokes (int N)))"
proof -
  define g0 where "g0 = run StrokeCounterGUI_init"
  define g1 where "g1 = g0\<lparr>stroke_queue := stroke_queue g0 @ replicate N 1\<rparr>"
  have n: "exec (replicate N Notify) g0 = Inr g1"
    by (simp add: g1_def exec_notifies)
  have l1: "label_ok g1"
    by (simp add: g1_def g0_def label_ok_def run_def StrokeCounterGUI_init_def total_strokes_0)
  have h1: "heading g1 = int N"
    by (simp add: g1_def g0_def heading_def run_def StrokeCounterGUI_init_def sum_list_replicate)
  have general: "stroke_count g = int N \<and> text_label g = Some (total_strokes (int N))"
    if "set sched \<subseteq> {Tick, Dispatch}" and "exec (replicate N Notify @ sched) g0 = Inr g"
      and "drained g" for sched g
  proof -
    from exec_poll [OF l1 that(1)] obtain g' where
      e: "exec sched g1 = Inr g'" "label_ok g'" "heading g' = heading g1" by blast
    from that(2) n e have "g' = g" by (simp add: exec_append)
    with e h1 heading_drained [OF that(3)] show ?thesis by (simp add: label_ok_def)
  qed
  have t: "label_ok (tick g1)" using tick_poll [OF l1] by simp
  have len: "Suc N = length (call_after (tick g1))"
    by (simp add: tick_def process_strokes_eq g1_def g0_def run_def StrokeCounterGUI_init_def)
  have q: "stroke_queue (tick g1) = []"
    by (simp add: tick_def process_strokes_eq g1_def g0_def run_def StrokeCounterGUI_init_def)
  from dispatch_all [OF t len] q obtain g2 where
    d: "exec (replicate (Suc N) Dispatch) (tick g1) = Inr g2" "drained g2"
    by (auto simp: drained_def)
  have c: "exec (replicate N Notify @ Tick # replicate (Suc N) Dispatch) g0 = Inr g2"
    using n d by (simp add: exec_append del: replicate_Suc)
  have "set (Tick # replicate (Suc N) Dispatch) \<subseteq> {Tick, Dispatch}" by auto
  from general [OF this c d(2)] c d(2) general show ?thesis
    unfolding g0_def by blast
qed

theorem counted_after_drain_witness:
  "set [Dispatch, Tick, Dispatch, Dispatch, Tick, Dispatch] \<subseteq> {Tick, Dispatch}
   \<and> exec (replicate 3 Notify @ [Dispatch, Tick, Dispatch, Dispatch, Tick, Dispatch])
        (run StrokeCounterGUI_init)
       = Inr \<lparr>stroke_count = 3, wx_ready = True, stroke_queue = [], frame = Some Shown,
              text_label = Some ''Total Strokes: 3'', call_after = [], call_later = 1\<rparr>
   \<and> drained \<lparr>stroke_count = 3, wx_ready = True, stroke_queue = [], frame = Some Shown,
              text_label = Some ''Total Strokes: 3'', call_after = [], call_later = 1\<rparr>
   \<and> stroke_count \<lparr>stroke_count = 3, wx_ready = True, stroke_queue = [], frame = Some Shown,
              text_label = Some ''Total Strokes: 3'', call_after = [], call_later = 1\<rparr> = int 3
   \<and> (\<exists>g. exec (replicate 3 Notify @ Tick # replicate (Suc 3) Dispatch)
              (run StrokeCounterGUI_init) = Inr g \<and> drained g \<and> stroke_count g = int 3)"
proof -
  define gx where "gx = \<lparr>stroke_count = 3, wx_ready = True, stroke_queue = [], frame = Some Shown,
              text_label = Some ''Total Strokes: 3'', call_after = [], call_later = 1\<rparr>"
  have a: "set [Dispatch, Tick, Dispatch, Dispatch, Tick, Dispatch] \<subseteq> {Tick, Dispatch}" by simp
  have b: "exec (replicate 3 Notify @ [Dispatch, Tick, Dispatch, Dispatch, Tick, Dispatch])
        (run StrokeCounterGUI_init) = Inr gx"
    by (simp add: gx_def numeral_3_eq_3 run_def StrokeCounterGUI_init_def update_count_def tick_def
      process_strokes_eq dispatch_def do_update_count_def total_strokes_def
      str_int_def str_nat.simps digit_char_def)
  have c: "drained gx" by (simp add: gx_def drained_def)
  from counted_after_drain [of 3] a b c
  have "stroke_count gx = int 3" by blast
  moreover from counted_after_drain [of 3]
  have "\<exists>g. exec (replicate 3 Notify @ Tick # replicate (Suc 3) Dispatch)
              (run StrokeCounterGUI_init) = Inr g \<and> drained g \<and> stroke_count g = int 3"
    by blast
  ultimately show ?thesis using a b c unfolding gx_def by blast
qed

section \<open>Strokes that arrive before the delayed start\<close>




section \<open>Reset\<close>

text \<open>
  Claim C3, as amended. \<^verbatim>\<open>reset_count\<close> posts \<^verbatim>\<open>_reset_count\<close> behind the calls
  already posted, while the increments still in the stroke queue are posted by the next poll,
  behind the reset. So in a running GUI with an armed poll timer, after a reset and a full
  drain (by the schedule given, or by any schedule of polls and posted calls that ends with
  nothing queued and nothing posted) the count is the sum of the increments that were still
  in the stroke queue when the reset was requested, each of them 1 when it was put there by
  \<^verbatim>\<open>update_count\<close>; it is 0 when that queue was empty. Increments that a poll had posted
  before the reset are overwritten by it.
\<close>

theorem reset_then_drain:
  assumes "label_ok g" and "0 < call_later g"
  shows "(\<exists>g'. exec (Reset # Tick # replicate (Suc (length (call_after g) + length (stroke_queue g))) Dispatch) g = Inr g'
            \<and> drained g' \<and> stroke_count g' = sum_list (stroke_queue g)
            \<and> text_label g' = Some (total_strokes (sum_list (stroke_queue g))))
       \<and> (\<forall>sched g'. set sched \<subseteq> {Tick, Dispatch} \<and> exec (Reset # sched) g = Inr g' \<and> drained g'
            \<longrightarrow> stroke_count g' = sum_list (stroke_queue g)
              \<and> text_label g' = Some (total_strokes (sum_list (stroke_queue g))))"
proof -
  define g1 where "g1 = reset_count g"
  have l1: "label_ok g1" using assms(1) by (simp add: g1_def label_ok_reset)
  have h1: "heading g1 = sum_list (stroke_queue g)" by (simp add: g1_def heading_reset)
  have general: "stroke_count g' = sum_list (stroke_queue g) \<and>
                 text_label g' = Some (total_strokes (sum_list (stroke_queue g)))"
    if "set sched \<subseteq> {Tick, Dispatch}" and "exec (Reset # sched) g = Inr g'" and "drained g'"
    for sched g'
  proof -
    from exec_poll [OF l1 that(1)] obtain g2 where
      e: "exec sched g1 = Inr g2" "label_ok g2" "heading g2 = heading g1" by blast
    from that(2) e have "g2 = g'" by (simp add: g1_def)
    with e h1 heading_drained [OF that(3)] show ?thesis by (simp add: label_ok_def)
  qed
  have t: "label_ok (tick g1)" using tick_poll [OF l1] by simp
  have len: "Suc (length (call_after g) + length (stroke_queue g)) = length (call_after (tick g1))"
    using assms(2) by (simp add: tick_def process_strokes_eq g1_def reset_count_def)
  have q: "stroke_queue (tick g1) = []"
    using assms(2) by (simp add: tick_def process_strokes_eq g1_def reset_count_def)
  from dispatch_all [OF t len] q obtain g2 where
    d: "exec (replicate (Suc (length (call_after g) + length (stroke_queue g))) Dispatch) (tick g1) = Inr g2"
       "drained g2"
    by (auto simp: drained_def)
  have c: "exec (Reset # Tick # replicate (Suc (length (call_after g) + length (stroke_queue g))) Dispatch) g = Inr g2"
    using d by (simp add: g1_def del: replicate_Suc)
  have "set (Tick # replicate (Suc (length (call_after g) + length (stroke_queue g))) Dispatch) \<subseteq> {Tick, Dispatch}"
    by auto
  from general [OF this c d(2)] c d(2) general show ?thesis by blast
qed

theorem reset_then_drain_witness:
  "label_ok (update_count (update_count (run StrokeCounterGUI_init)))
   \<and> 0 < call_later (update_count (update_count (run StrokeCounterGUI_init)))
   \<and> set [Dispatch, Dispatch, Tick, Dispatch, Dispatch] \<subseteq> {Tick, Dispatch}
   \<and> exec (Reset # [Dispatch, Dispatch, Tick, Dispatch, Dispatch])
        (update_count (update_count (run StrokeCounterGUI_init)))
       = Inr \<lparr>stroke_count = 2, wx_ready = True, stroke_queue = [], frame = Some Shown,
              text_label = Some ''Total Strokes: 2'', call_after = [], call_later = 1\<rparr>
   \<and> drained \<lparr>stroke_count = 2, wx_ready = True, stroke_queue = [], frame = Some Shown,
              text_label = Some ''Total Strokes: 2'', call_after = [], call_later = 1\<rparr>
   \<and> stroke_count \<lparr>stroke_count = 2, wx_ready = True, stroke_queue = [], frame = Some Shown,
              text_label = Some ''Total Strokes: 2'', call_after = [], call_later = 1\<rparr>
       = sum_list (stroke_queue (update_count (update_count (run StrokeCounterGUI_init))))"
proof -
  define g where "g = update_count (update_count (run StrokeCounterGUI_init))"
  define gx where "gx = \<lparr>stroke_count = 2, wx_ready = True, stroke_queue = [], frame = Some Shown,
              text_label = Some ''Total Strokes: 2'', call_after = [], call_later = 1\<rparr>"
  have l: "label_ok g"
    by (simp add: g_def label_ok_def update_count_def run_def StrokeCounterGUI_init_def total_strokes_0)
  have c: "0 < call_later g"
    by (simp add: g_def update_count_def run_def StrokeCounterGUI_init_def)
  have a: "set [Dispatch, Dispatch, Tick, Dispatch, Dispatch] \<subseteq> {Tick, Dispatch}" by simp
  have b: "exec (Reset # [Dispatch, Dispatch, Tick, Dispatch, Dispatch]) g = Inr gx"
    by (simp add: g_def gx_def run_def StrokeCounterGUI_init_def update_count_def reset_count_def
      tick_def process_strokes_eq dispatch_def do_update_count_def do_reset_count_def
      total_strokes_def str_int_def str_nat.simps digit_char_def)
  have d: "drained gx" by (simp add: gx_def drained_def)
  from reset_then_drain [OF l c] a b d
  have "stroke_count gx = sum_list (stroke_queue g)" by blast
  with l c a b d show ?thesis unfolding g_def gx_def by blast
qed

text \<open>
  Claim C3 as stated fails: three increments are enqueued, then the reset button is clicked
  before the next poll; after the poll and all posted calls the count is 3, not 0.
\<close>

theorem reset_then_drain_counterexample:
  "exec [Notify, Notify, Notify, Reset, Tick, Dispatch, Dispatch, Dispatch, Dispatch, Dispatch]
     (run StrokeCounterGUI_init)
   = Inr \<lparr>stroke_count = 3, wx_ready = True, stroke_queue = [], frame = Some Shown,
          text_label = Some ''Total Strokes: 3'', call_after = [], call_later = 1\<rparr>"
  by (simp add: run_def StrokeCounterGUI_init_def update_count_def reset_count_def tick_def
      process_strokes_eq dispatch_def do_update_count_def do_reset_count_def total_strokes_def
      str_int_def str_nat.simps digit_char_def)

section \<open>Each increment is applied once, in order\<close>

lemma exec_in_order:
  assumes "built g" and "ResetCount \<notin> set (call_after g)"
      and "set sched \<subseteq> {Notify, Tick, Dispatch}"
  shows "\<exists>g' k. exec sched g = Inr g'
           \<and> k \<le> length (outstanding g @ replicate (count_list sched Notify) 1)
           \<and> stroke_count g' =
               stroke_count g + sum_list (take k (outstanding g @ replicate (count_list sched Notify) 1))
           \<and> outstanding g' = drop k (outstanding g @ replicate (count_list sched Notify) 1)"
  using assms
proof (induction sched arbitrary: g)
  case Nil
  have "exec [] g = Inr g \<and> 0 \<le> length (outstanding g @ replicate (count_list [] Notify) 1)
      \<and> stroke_count g = stroke_count g + sum_list (take 0 (outstanding g @ replicate (count_list [] Notify) 1))
      \<and> outstanding g = drop 0 (outstanding g @ replicate (count_list [] Notify) 1)"
    by simp
  then show ?case by blast
next
  case (Cons a sched)
  from Cons.prems have rest: "set sched \<subseteq> {Notify, Tick, Dispatch}" by auto
  let ?m = "count_list sched Notify"
  from Cons.prems have "a = Notify \<or> a = Tick \<or> a = Dispatch" by auto
  then consider (notify) "a = Notify" | (tick) "a = Tick" | (dispatch) "a = Dispatch" by blast
  then show ?case
  proof cases
    case notify
    have b: "built (update_count g)" "ResetCount \<notin> set (call_after (update_count g))"
      using Cons.prems by (simp_all add: built_def update_count_def)
    from Cons.IH [OF b rest] obtain g' k where
      h: "exec sched (update_count g) = Inr g'"
         "k \<le> length (outstanding (update_count g) @ replicate ?m 1)"
         "stroke_count g' = stroke_count (update_count g)
             + sum_list (take k (outstanding (update_count g) @ replicate ?m 1))"
         "outstanding g' = drop k (outstanding (update_count g) @ replicate ?m 1)"
      by blast
    have all: "outstanding (update_count g) @ replicate ?m 1
             = outstanding g @ replicate (count_list (a # sched) Notify) 1"
      by (simp add: notify outstanding_update_count)
    have c: "stroke_count (update_count g) = stroke_count g" by (simp add: update_count_def)
    from h have "exec (a # sched) g = Inr g'" by (simp add: notify)
    with h(2,3,4) show ?thesis unfolding all c by blast
  next
    case tick
    have b: "built (tick g)" "ResetCount \<notin> set (call_after (tick g))"
      using Cons.prems no_reset_tick [of g] by (simp_all add: built_def tick_def process_strokes_eq)
    from Cons.IH [OF b rest] obtain g' k where
      h: "exec sched (tick g) = Inr g'"
         "k \<le> length (outstanding (tick g) @ replicate ?m 1)"
         "stroke_count g' = stroke_count (tick g)
             + sum_list (take k (outstanding (tick g) @ replicate ?m 1))"
         "outstanding g' = drop k (outstanding (tick g) @ replicate ?m 1)"
      by blast
    have all: "outstanding (tick g) @ replicate ?m 1
             = outstanding g @ replicate (count_list (a # sched) Notify) 1"
      by (simp add: tick outstanding_tick)
    have c: "stroke_count (tick g) = stroke_count g" by (simp add: tick_def process_strokes_eq)
    from h have "exec (a # sched) g = Inr g'" by (simp add: tick)
    with h(2,3,4) show ?thesis unfolding all c by blast
  next
    case dispatch
    define all where "all = outstanding g @ replicate (count_list (a # sched) Notify) 1"
    from dispatch_once [OF Cons.prems(1,2)] obtain g1 j where
      d: "dispatch g = Inr g1" "built g1" "ResetCount \<notin> set (call_after g1)"
         "j \<le> length (outstanding g)"
         "stroke_count g1 = stroke_count g + sum_list (take j (outstanding g))"
         "outstanding g1 = drop j (outstanding g)"
      by blast
    from Cons.IH [OF d(2,3) rest] obtain g' k where
      h: "exec sched g1 = Inr g'"
         "k \<le> length (outstanding g1 @ replicate ?m 1)"
         "stroke_count g' = stroke_count g1 + sum_list (take k (outstanding g1 @ replicate ?m 1))"
         "outstanding g' = drop k (outstanding g1 @ replicate ?m 1)"
      by blast
    have dr: "outstanding g1 @ replicate ?m 1 = drop j all"
      using d(4,6) by (simp add: dispatch all_def)
    have tk: "take j (outstanding g) = take j all"
      using d(4) by (simp add: all_def)
    have jl: "j \<le> length all" using d(4) by (simp add: all_def)
    have e: "exec (a # sched) g = Inr g'" using d(1) h(1) by (simp add: dispatch)
    have k: "j + k \<le> length all" using h(2) jl unfolding dr by simp
    have "sum_list (take (j + k) all) = sum_list (take j all) + sum_list (take k (drop j all))"
      by (simp add: take_add)
    then have s: "stroke_count g' = stroke_count g + sum_list (take (j + k) all)"
      using h(3) d(5) unfolding dr tk by simp
    have o: "outstanding g' = drop (j + k) all"
      using h(4) unfolding dr by (simp add: add.commute)
    from e k s o show ?thesis unfolding all_def by blast
  qed
qed

lemma step_keeps_running:
  assumes "built g" and "ResetCount \<notin> set (call_after g)"
      and "a = Notify \<or> a = Tick \<or> a = Dispatch"
  shows "\<exists>g'. step a g = Inr g' \<and> built g' \<and> ResetCount \<notin> set (call_after g')
           \<and> call_later g' = call_later g"
proof -
  from assms(3) have "a \<noteq> Run" by auto
  from step_call_later [OF assms(1) this] obtain g' where
    s: "step a g = Inr g'" "built g'" "call_later g' = call_later g" by blast
  have "ResetCount \<notin> set (call_after g')"
  proof (cases a)
    case Notify
    with s(1) assms(2) show ?thesis by (auto simp: update_count_def)
  next
    case Tick
    with s(1) no_reset_tick [OF assms(2)] show ?thesis by auto
  next
    case Dispatch
    from dispatch_once [OF assms(1,2)] s(1) Dispatch show ?thesis by auto
  qed (use assms(3) in simp_all)
  with s show ?thesis by blast
qed

lemma exec_keeps_running:
  assumes "built g" and "ResetCount \<notin> set (call_after g)"
      and "set sched \<subseteq> {Notify, Tick, Dispatch}"
  shows "\<exists>g'. exec sched g = Inr g' \<and> built g' \<and> ResetCount \<notin> set (call_after g')
           \<and> call_later g' = call_later g"
  using assms
proof (induction sched arbitrary: g)
  case Nil
  then show ?case by simp
next
  case (Cons a sched)
  from Cons.prems have "a = Notify \<or> a = Tick \<or> a = Dispatch" by auto
  from step_keeps_running [OF Cons.prems(1,2) this] obtain g1 where
    s: "step a g = Inr g1" "built g1" "ResetCount \<notin> set (call_after g1)"
       "call_later g1 = call_later g" by blast
  from Cons.prems have "set sched \<subseteq> {Notify, Tick, Dispatch}" by auto
  from Cons.IH [OF s(2,3) this] s(1,4) show ?case by simp
qed

lemma dispatch_prefix:
  assumes "built g" and "ResetCount \<notin> set (call_after g)" and "j \<le> length (call_after g)"
  shows "\<exists>g'. exec (replicate j Dispatch) g = Inr g'
           \<and> call_after g' = drop j (call_after g)
           \<and> stroke_queue g' = stroke_queue g
           \<and> stroke_count g' = stroke_count g + sum_list (updates (take j (call_after g)))"
  using assms
proof (induction j arbitrary: g)
  case 0
  then show ?case by simp
next
  case (Suc j)
  then obtain e es where c: "call_after g = e # es" by (cases "call_after g") auto
  have "\<exists>g1. dispatch g = Inr g1 \<and> built g1 \<and> call_after g1 = es
          \<and> stroke_queue g1 = stroke_queue g
          \<and> stroke_count g1 = stroke_count g + sum_list (updates [e])"
    using Suc.prems(1,2) c
    by (cases e) (auto simp: dispatch_def built_def do_update_count_def)
  then obtain g1 where
    d: "dispatch g = Inr g1" "built g1" "call_after g1 = es" "stroke_queue g1 = stroke_queue g"
       "stroke_count g1 = stroke_count g + sum_list (updates [e])"
    by blast
  have r: "ResetCount \<notin> set (call_after g1)" using Suc.prems(2) c d(3) by simp
  have l: "j \<le> length (call_after g1)" using Suc.prems(3) c d(3) by simp
  from Suc.IH [OF d(2) r l] obtain g' where
    h: "exec (replicate j Dispatch) g1 = Inr g'" "call_after g' = drop j (call_after g1)"
       "stroke_queue g' = stroke_queue g1"
       "stroke_count g' = stroke_count g1 + sum_list (updates (take j (call_after g1)))"
    by blast
  have u: "updates (take (Suc j) (call_after g)) = updates [e] @ updates (take j es)"
    using updates_append [of "[e]" "take j es"] by (simp add: c)
  have "exec (replicate (Suc j) Dispatch) g = Inr g'" using d(1) h(1) by simp
  moreover have "call_after g' = drop (Suc j) (call_after g)" using h(2) d(3) c by simp
  moreover have "stroke_queue g' = stroke_queue g" using h(3) d(4) by simp
  moreover have "stroke_count g' = stroke_count g + sum_list (updates (take (Suc j) (call_after g)))"
    using h(4) d(3,5) unfolding u by simp
  ultimately show ?case by blast
qed

lemma poll_then_dispatch:
  assumes "built g" and "ResetCount \<notin> set (call_after g)" and "0 < call_later g"
      and "j \<le> length (call_after g) + length (stroke_queue g)"
  shows "\<exists>g'. exec (Tick # replicate j Dispatch) g = Inr g'
           \<and> stroke_queue g' = []
           \<and> call_after g' = drop j (call_after g @ map UpdateCount (stroke_queue g))
           \<and> stroke_count g' = stroke_count g
                + sum_list (updates (take j (call_after g @ map UpdateCount (stroke_queue g))))"
proof -
  have t: "tick g = g\<lparr>call_later := call_later g, stroke_queue := [],
                     call_after := call_after g @ map UpdateCount (stroke_queue g)\<rparr>"
    using assms(3) by (simp add: tick_def process_strokes_eq)
  have b: "built (tick g)" using assms(1) by (simp add: t built_def)
  have r: "ResetCount \<notin> set (call_after (tick g))" using no_reset_tick [OF assms(2)] .
  have l: "j \<le> length (call_after (tick g))" using assms(4) by (simp add: t)
  from dispatch_prefix [OF b r l] obtain g' where
    h: "exec (replicate j Dispatch) (tick g) = Inr g'"
       "call_after g' = drop j (call_after (tick g))"
       "stroke_queue g' = stroke_queue (tick g)"
       "stroke_count g' = stroke_count (tick g) + sum_list (updates (take j (call_after (tick g))))"
    by blast
  have ca: "call_after (tick g) = call_after g @ map UpdateCount (stroke_queue g)"
    and q: "stroke_queue (tick g) = []" and c: "stroke_count (tick g) = stroke_count g"
    by (simp_all add: t)
  have "exec (Tick # replicate j Dispatch) g = Inr g'" using h(1) by simp
  with h(2,3,4) show ?thesis unfolding ca q c by blast
qed

lemma poll_then_dispatch_all:
  assumes "built g" and "ResetCount \<notin> set (call_after g)" and "0 < call_later g"
  shows "\<exists>g'. exec (Tick # replicate (length (call_after g) + length (stroke_queue g)) Dispatch) g = Inr g'
           \<and> drained g' \<and> stroke_count g' = stroke_count g + sum_list (outstanding g)"
proof -
  from poll_then_dispatch [OF assms, of "length (call_after g) + length (stroke_queue g)"]
  obtain g' where
    h: "exec (Tick # replicate (length (call_after g) + length (stroke_queue g)) Dispatch) g = Inr g'"
       "stroke_queue g' = []"
       "call_after g' = drop (length (call_after g) + length (stroke_queue g))
                          (call_after g @ map UpdateCount (stroke_queue g))"
       "stroke_count g' = stroke_count g
          + sum_list (updates (take (length (call_after g) + length (stroke_queue g))
                                 (call_after g @ map UpdateCount (stroke_queue g))))"
    by auto
  have "drained g'" using h(2,3) by (simp add: drained_def)
  moreover have "stroke_count g' = stroke_count g + sum_list (outstanding g)"
    using h(4) by (simp add: outstanding_def updates_append updates_map)
  ultimately show ?thesis using h(1) by blast
qed

text \<open>
  Claim C4. Take a GUI whose label is built and which has no reset posted, and any
  interleaving of \<^verbatim>\<open>update_count()\<close> calls, polls and posted calls made by the main
  loop. Let \<open>all\<close> be the increments in enqueue order: those already posted, those queued,
  and one 1 for each \<^verbatim>\<open>update_count()\<close> of the interleaving.
  \<^item> The run does not fail, and at its end there is a \<open>k\<close> such that the count has grown by
    the sum of the first \<open>k\<close> increments of \<open>all\<close>, and the increments still posted or
    queued are exactly the rest of \<open>all\<close>, in the same order: at every moment each
    increment has either been applied, once, or is still waiting, none is dropped or
    doubled, and they are applied in enqueue order.
  \<^item> With the poll timer armed, as it is from \<^verbatim>\<open>run\<close> on, none stays behind: after the
    interleaving, one more poll and the posted calls end with nothing queued and nothing
    posted, and the count has grown by the sum of the whole of \<open>all\<close>.
  \<^item> With the poll timer armed, a poll empties the queue and posts its increments, in queue
    order, behind the calls already posted; the next \<open>j\<close> calls of the main loop are the
    first \<open>j\<close> of these, the count grows by exactly the increments among them, and the
    others are still posted, in order.
\<close>

theorem increments_applied_once_in_order:
  assumes "built g" and "ResetCount \<notin> set (call_after g)"
      and "set sched \<subseteq> {Notify, Tick, Dispatch}"
  shows "(\<exists>g' k. exec sched g = Inr g'
           \<and> k \<le> length (outstanding g @ replicate (count_list sched Notify) 1)
           \<and> stroke_count g' =
               stroke_count g + sum_list (take k (outstanding g @ replicate (count_list sched Notify) 1))
           \<and> outstanding g' = drop k (outstanding g @ replicate (count_list sched Notify) 1))
       \<and> (0 < call_later g \<longrightarrow>
            (\<exists>n g'. exec (sched @ Tick # replicate n Dispatch) g = Inr g' \<and> drained g'
               \<and> stroke_count g' =
                   stroke_count g + sum_list (outstanding g @ replicate (count_list sched Notify) 1)))
       \<and> (0 < call_later g \<longrightarrow>
            (\<forall>j \<le> length (call_after g) + length (stroke_queue g).
               \<exists>g'. exec (Tick # replicate j Dispatch) g = Inr g'
                 \<and> stroke_queue g' = []
                 \<and> call_after g' = drop j (call_after g @ map UpdateCount (stroke_queue g))
                 \<and> stroke_count g' = stroke_count g
                      + sum_list (updates (take j (call_after g @ map UpdateCount (stroke_queue g))))))"
proof -
  define all where "all = outstanding g @ replicate (count_list sched Notify) 1"
  from exec_in_order [OF assms] obtain g1 k where
    o: "exec sched g = Inr g1" "k \<le> length all"
       "stroke_count g1 = stroke_count g + sum_list (take k all)"
       "outstanding g1 = drop k all"
    unfolding all_def by blast
  have first: "\<exists>g' k. exec sched g = Inr g' \<and> k \<le> length all
           \<and> stroke_count g' = stroke_count g + sum_list (take k all)
           \<and> outstanding g' = drop k all"
    using o by blast
  have second: "\<exists>n g'. exec (sched @ Tick # replicate n Dispatch) g = Inr g' \<and> drained g'
               \<and> stroke_count g' = stroke_count g + sum_list all" if armed: "0 < call_later g"
  proof -
    from exec_keeps_running [OF assms] o(1) have
      r: "built g1" "ResetCount \<notin> set (call_after g1)" "call_later g1 = call_later g"
      by auto
    from armed r(3) have "0 < call_later g1" by simp
    from poll_then_dispatch_all [OF r(1,2) this] obtain g' where
      d: "exec (Tick # replicate (length (call_after g1) + length (stroke_queue g1)) Dispatch) g1 = Inr g'"
         "drained g'" "stroke_count g' = stroke_count g1 + sum_list (outstanding g1)"
      by blast
    have "sum_list (take k all) + sum_list (drop k all) = sum_list all"
      by (metis append_take_drop_id sum_list_append)
    then have c: "stroke_count g' = stroke_count g + sum_list all"
      using d(3) o(3,4) by simp
    have "exec (sched @ Tick # replicate (length (call_after g1) + length (stroke_queue g1)) Dispatch) g
            = Inr g'"
      using o(1) d(1) by (simp add: exec_append)
    with d(2) c show ?thesis by blast
  qed
  have third: "\<forall>j \<le> length (call_after g) + length (stroke_queue g).
               \<exists>g'. exec (Tick # replicate j Dispatch) g = Inr g'
                 \<and> stroke_queue g' = []
                 \<and> call_after g' = drop j (call_after g @ map UpdateCount (stroke_queue g))
                 \<and> stroke_count g' = stroke_count g
                      + sum_list (updates (take j (call_after g @ map UpdateCount (stroke_queue g))))"
    if armed: "0 < call_later g"
    using poll_then_dispatch [OF assms(1,2) armed] by blast
  from first second third show ?thesis unfolding all_def by blast
qed

theorem increments_applied_once_in_order_witness:
  "built (run StrokeCounterGUI_init)
   \<and> ResetCount \<notin> set (call_after (run StrokeCounterGUI_init))
   \<and> set [Notify, Tick, Notify, Dispatch, Dispatch] \<subseteq> {Notify, Tick, Dispatch}
   \<and> 0 < call_later (run StrokeCounterGUI_init)
   \<and> (\<exists>g' k. exec [Notify, Tick, Notify, Dispatch, Dispatch] (run StrokeCounterGUI_init) = Inr g'
         \<and> k \<le> length [1, 1 :: int] \<and> stroke_count g' = 0 + sum_list (take k [1, 1])
         \<and> outstanding g' = drop k [1, 1])
   \<and> (\<exists>n g'. exec ([Notify, Tick, Notify, Dispatch, Dispatch] @ Tick # replicate n Dispatch)
                (run StrokeCounterGUI_init) = Inr g'
         \<and> drained g' \<and> stroke_count g' = 0 + sum_list [1, 1])"
proof -
  have a: "built (run StrokeCounterGUI_init)" by (simp add: built_def run_def)
  have b: "ResetCount \<notin> set (call_after (run StrokeCounterGUI_init))"
    by (simp add: run_def StrokeCounterGUI_init_def)
  have c: "set [Notify, Tick, Notify, Dispatch, Dispatch] \<subseteq> {Notify, Tick, Dispatch}" by simp
  have t: "0 < call_later (run StrokeCounterGUI_init)" by (simp add: run_def)
  have d: "outstanding (run StrokeCounterGUI_init)
             @ replicate (count_list [Notify, Tick, Notify, Dispatch, Dispatch] Notify) 1 = [1, 1]"
    by (simp add: outstanding_def run_def StrokeCounterGUI_init_def)
  have e: "stroke_count (run StrokeCounterGUI_init) = 0"
    by (simp add: run_def StrokeCounterGUI_init_def)
  from increments_applied_once_in_order [OF a b c] a b c t show ?thesis
    unfolding d e by blast
qed

section \<open>Strokes after stop\<close>







section \<open>Starting twice, stopping twice\<close>

text \<open>
  Claim C6, as amended. A second \<^verbatim>\<open>start()\<close> changes nothing: \<^verbatim>\<open>self.gui\<close> is set, no
  second GUI is created. A second \<^verbatim>\<open>stop()\<close> finds \<^verbatim>\<open>self.gui\<close> at \<^verbatim>\<open>None\<close>: it
  requests no second close and touches no GUI object, but it does call
  \<^verbatim>\<open>engine.hook_disconnect("stroked", self.on_stroke)\<close> once more, since that call is
  outside the test.
\<close>

theorem start_twice_stop_twice:
  "start (start p) = start p
   \<and> stop (stop p) = (stop p)\<lparr>engine := engine (stop p) @ [HookDisconnect ''stroked'']\<rparr>
   \<and> gui (stop (stop p)) = gui (stop p)
   \<and> heap (stop (stop p)) = heap (stop p)
   \<and> start_timer (stop (stop p)) = start_timer (stop p)"
proof -
  have "stop q = q\<lparr>engine := engine q @ [HookDisconnect ''stroked'']\<rparr>" if "gui q = None" for q
    using that by (simp add: stop_def)
  from this [OF gui_stop [of p]] show ?thesis
    by (simp add: start_start)
qed

text \<open>
  Claim C6 as stated fails for \<^verbatim>\<open>stop()\<close>: after activation and start, stopping twice
  makes two \<^verbatim>\<open>hook_disconnect\<close> calls on the host, stopping once makes one.
\<close>

theorem stop_twice_counterexample:
  "stop (stop (start (plugin_init []))) \<noteq> stop (start (plugin_init []))
   \<and> engine (stop (start (plugin_init [])))
       = [HookConnect ''stroked'', HookDisconnect ''stroked'']
   \<and> engine (stop (stop (start (plugin_init []))))
       = [HookConnect ''stroked'', HookDisconnect ''stroked'', HookDisconnect ''stroked'']"
proof -
  have a: "engine (stop (start (plugin_init [])))
       = [HookConnect ''stroked'', HookDisconnect ''stroked'']"
    by (simp add: stop_def start_def plugin_init_def StrokeCounterPlugin_init_def)
  have b: "engine (stop (stop (start (plugin_init []))))
       = [HookConnect ''stroked'', HookDisconnect ''stroked'', HookDisconnect ''stroked'']"
    by (simp add: stop_def start_def plugin_init_def StrokeCounterPlugin_init_def)
  from a b have "stop (stop (start (plugin_init []))) \<noteq> stop (start (plugin_init []))"
    by (metis list.inject list.distinct(1))
  with a b show ?thesis by blast
qed

section \<open>The count is not negative and the label shows it\<close>

text \<open>
  Claim C9. Take a new GUI object; before its thread executes \<^verbatim>\<open>run\<close>, any
  \<^verbatim>\<open>update_count()\<close> and \<^verbatim>\<open>close()\<close> calls (and polls and posted calls, of which
  there are none yet); after \<^verbatim>\<open>run\<close>, any sequence of \<^verbatim>\<open>update_count()\<close>, polls,
  posted calls (each \<^verbatim>\<open>_update_count\<close> and \<^verbatim>\<open>_reset_count\<close> among them), reset clicks
  and \<^verbatim>\<open>close()\<close>. Nothing fails, and in the state reached, so after every
  \<^verbatim>\<open>_update_count\<close> and every \<^verbatim>\<open>_reset_count\<close>, the count is not negative and the
  label is \<^verbatim>\<open>Total Strokes: \<close> followed by the count in decimal.
\<close>

theorem count_nonneg_and_shown:
  assumes "set pre \<subseteq> {Notify, Tick, Dispatch, Close}"
      and "set post \<subseteq> {Notify, Tick, Dispatch, Reset, Close}"
  shows "\<exists>g. exec (pre @ Run # post) StrokeCounterGUI_init = Inr g
           \<and> 0 \<le> stroke_count g
           \<and> text_label g = Some (''Total Strokes: '' @ str_int (stroke_count g))"
proof -
  have i: "StrokeCounterGUI_init = waiting 0"
    by (simp add: waiting_def StrokeCounterGUI_init_def)
  from exec_waiting [OF assms(1), of 0] obtain k where
    p: "exec pre StrokeCounterGUI_init = Inr (waiting k)" unfolding i by blast
  from assms(2) have "Run \<notin> set post" by auto
  from exec_nonneg [OF nonneg_run_waiting this, of k] obtain g where
    e: "exec post (run (waiting k)) = Inr g" "nonneg_inv g" by blast
  from p e(1) have "exec (pre @ Run # post) StrokeCounterGUI_init = Inr g"
    by (simp add: exec_append)
  with e(2) show ?thesis
    by (auto simp: nonneg_inv_def label_ok_def total_strokes_def)
qed

theorem count_nonneg_and_shown_witness:
  "set [Notify, Close] \<subseteq> {Notify, Tick, Dispatch, Close}
   \<and> set [Notify, Tick, Dispatch, Dispatch, Reset, Dispatch, Dispatch] \<subseteq> {Notify, Tick, Dispatch, Reset, Close}
   \<and> (\<exists>g. exec ([Notify, Close] @ Run # [Notify, Tick, Dispatch, Dispatch, Reset, Dispatch, Dispatch])
            StrokeCounterGUI_init = Inr g
         \<and> 0 \<le> stroke_count g
         \<and> text_label g = Some (''Total Strokes: '' @ str_int (stroke_count g)))"
proof -
  have a: "set [Notify, Close] \<subseteq> {Notify, Tick, Dispatch, Close}" by simp
  have b: "set [Notify, Tick, Dispatch, Dispatch, Reset, Dispatch, Dispatch]
             \<subseteq> {Notify, Tick, Dispatch, Reset, Close}" by simp
  from count_nonneg_and_shown [OF a b] a b show ?thesis by blast
qed

section \<open>Close before the GUI is ready\<close>

text \<open>
  Claim C10. On a GUI object whose \<^verbatim>\<open>wx_ready\<close> is not set, \<^verbatim>\<open>close()\<close> changes
  nothing: in particular it posts no \<^verbatim>\<open>frame.Close\<close>. When the thread then executes
  \<^verbatim>\<open>run\<close>, and after any sequence of \<^verbatim>\<open>update_count()\<close>, polls, posted calls and
  reset clicks, the GUI is ready, its frame is shown and no \<^verbatim>\<open>frame.Close\<close> is posted
  (given that none was posted before).
\<close>

theorem close_before_ready_is_ignored:
  assumes "\<not> wx_ready g" and "FrameClose \<notin> set (call_after g)"
      and "set sched \<subseteq> {Notify, Tick, Dispatch, Reset}"
  shows "close g = g
       \<and> (\<exists>g'. exec (Close # Run # sched) g = Inr g' \<and> wx_ready g' \<and> frame g' = Some Shown
              \<and> FrameClose \<notin> set (call_after g'))"
proof -
  have c: "close g = g" using assms(1) by (simp add: close_def)
  have "shown_inv (run g)" using assms(2) by (simp add: shown_inv_def built_def run_def)
  from exec_shown [OF this assms(3)] obtain g' where
    e: "exec sched (run g) = Inr g'" "shown_inv g'" by blast
  from e(1) c have "exec (Close # Run # sched) g = Inr g'" by simp
  with c e(2) show ?thesis by (auto simp: shown_inv_def)
qed

theorem close_before_ready_is_ignored_witness:
  "\<not> wx_ready StrokeCounterGUI_init \<and> FrameClose \<notin> set (call_after StrokeCounterGUI_init)
   \<and> set [Tick, Dispatch] \<subseteq> {Notify, Tick, Dispatch, Reset}
   \<and> close StrokeCounterGUI_init = StrokeCounterGUI_init
   \<and> (\<exists>g'. exec [Close, Run, Tick, Dispatch] StrokeCounterGUI_init = Inr g' \<and> wx_ready g'
          \<and> frame g' = Some Shown)"
proof -
  have a: "\<not> wx_ready StrokeCounterGUI_init" by (simp add: StrokeCounterGUI_init_def)
  have b: "FrameClose \<notin> set (call_after StrokeCounterGUI_init)" by (simp add: StrokeCounterGUI_init_def)
  have c: "set [Tick, Dispatch] \<subseteq> {Notify, Tick, Dispatch, Reset}" by simp
  from close_before_ready_is_ignored [OF a b c] a b c show ?thesis by blast
qed

end
